theory Spec2Isabelle
  imports Complex_Main "HOL-Library.AList"
begin

section \<open>Data model\<close>

text \<open>
  The development embeds the matching engine of madgui
  (\<^verbatim>\<open>madgui/component/matchtool.py\<close>) and the optics table of a segment
  (\<^verbatim>\<open>madgui/component/session.py\<close>).

  Conventions of the embedding:
  \<^item> Python floats and unit-tagged quantities are real numbers (a quantity is its
    magnitude in one fixed unit per physical dimension), so adding a unit is the identity
    and a quantity is zero exactly when its magnitude is.
  \<^item> A Python \<^verbatim>\<open>dict\<close> that the code iterates over is an association list in
    insertion order; item assignment is \<^const>\<open>AList.update\<close> (in place for an existing
    key, at the end for a new one), \<^verbatim>\<open>del\<close> is \<^const>\<open>AList.delete\<close> and
    lookup is \<^const>\<open>map_of\<close>. The order in which \<^verbatim>\<open>.items()\<close> enumerates
    a dictionary is left open: it is a parameter \<open>items\<close> of the functions that
    iterate (the identity for an insertion-ordered dictionary).
  \<^item> A raised exception is a value \<open>Inl e\<close> of type \<open>error + 'a\<close>; a function
    that mutates an object returns the object as it is when the function returns or
    raises.
\<close>

datatype error = KeyError | ValueError | AttributeError | ZeroDivisionError | MadxError

text \<open>
  A value stored in an element: a bare number, a number carrying the attribute
  \<^verbatim>\<open>_expression\<close> (whose content may be \<^verbatim>\<open>None\<close>), or a string.
\<close>

datatype pvalue = Plain real | Symbolic real "string option" | Text string

text \<open>
  An element is one dictionary with the keys \<^verbatim>\<open>name\<close>, \<^verbatim>\<open>type\<close>,
  \<^verbatim>\<open>at\<close>, \<^verbatim>\<open>l\<close> and one key per parameter. The four fixed keys are record
  fields (two strings and two bare numbers); \<open>e_params\<close> holds the remaining keys.
\<close>

record element =
  e_name :: string
  e_type :: string
  e_at :: real
  e_l :: real
  e_params :: "(string \<times> pvalue) list"

text \<open>
  \<^verbatim>\<open>elem[key]\<close> reads that one dictionary, whichever key is asked for: the fixed
  keys answer with the record fields, every other key is looked up among the
  parameters, and \<open>None\<close> stands for the \<^verbatim>\<open>KeyError\<close> of a missing key.
\<close>

definition elem_getitem :: "element \<Rightarrow> string \<Rightarrow> pvalue option" where
  "elem_getitem elem key =
     (if key = ''name'' then Some (Text (e_name elem))
      else if key = ''type'' then Some (Text (e_type elem))
      else if key = ''at'' then Some (Plain (e_at elem))
      else if key = ''l'' then Some (Plain (e_l elem))
      else map_of (e_params elem) key)"

type_synonym constr = "element \<times> real"
type_synonym cdict = "(string \<times> constr list) list"
type_synonym knob = "element \<times> string list"
type_synonym pools = "(string \<times> knob list) list"
type_synonym ruletab = "(string \<times> (string \<times> string list) list) list"

subsection \<open>The external engine and the segment\<close>

text \<open>
  The calls the MAD-X process receives, in order, are recorded in the segment's session
  (\<open>madx_calls\<close>). A \<open>Match_call\<close> carries the vary-list and the constraints, each
  constraint \<^verbatim>\<open>{'range': name, quantity: value}\<close> as a triple.
\<close>

datatype madx_call = Twiss_call | Match_call "string list" "(string \<times> string \<times> real) list"

record twiss_results =
  columns :: "string \<rightharpoonup> real list"
  res_summary :: "string \<rightharpoonup> real"

text \<open>
  The engine is a collaborator outside the repository: a session holds what it answers
  to a \<^verbatim>\<open>twiss\<close> and to a \<^verbatim>\<open>match\<close> command, given every call it has
  received so far (the last one being the command itself).
\<close>

record session =
  twiss_reply :: "madx_call list \<Rightarrow> error + twiss_results"
  match_reply :: "madx_call list \<Rightarrow> error option"

text \<open>
  Modelled from the spec: the unit-conversion service (\<^verbatim>\<open>madgui.util.unit\<close>, the
  session's \<^verbatim>\<open>utool\<close>) is not among the sources. The spec describes
  \<^verbatim>\<open>add_unit(name, raw) -> quantity\<close> and \<^verbatim>\<open>strip_unit(name, quantity) -> raw\<close>
  as the boundary every value crosses once in each direction. With a quantity
  represented by its magnitude in the engine's unit, both directions leave the number
  as it is.
\<close>

definition dict_add_unit :: "(string \<rightharpoonup> 'a) \<Rightarrow> (string \<rightharpoonup> 'a)" where
  "dict_add_unit d = d"

definition strip_unit :: "string \<Rightarrow> real \<Rightarrow> real" where
  "strip_unit name quantity = quantity"

record segment =
  start_at :: real
  tw :: "string \<rightharpoonup> real list"
  summary :: "string \<rightharpoonup> real"
  pos :: "real list"
  madx_calls :: "madx_call list"
  updates :: nat

subsection \<open>The matcher\<close>

datatype event = Hook_stop | Hook_add_constraint | Hook_remove_constraint | Hook_clear_constraints

text \<open>
  \<open>hook_log\<close> lists the notifications the matcher's \<^verbatim>\<open>HookCollection\<close> has
  fired, oldest first.
\<close>

record matching =
  constraints :: cdict
  variable_parameters :: pools
  elements :: "element list"
  rules :: ruletab
  segment :: segment
  hook_log :: "event list"

section \<open>The constraint set\<close>

definition gconstr :: "matching \<Rightarrow> string \<Rightarrow> constr list" where
  "gconstr m axis = (case map_of (constraints m) axis of None \<Rightarrow> [] | Some cs \<Rightarrow> cs)"

text \<open>\<^verbatim>\<open>setdefault(axis, [])\<close>: the list stored under the key, stored first if absent.\<close>

definition sconstr :: "matching \<Rightarrow> string \<Rightarrow> constr list \<times> matching" where
  "sconstr m axis =
     (case map_of (constraints m) axis of
        None \<Rightarrow> ([], m\<lparr>constraints := AList.update axis [] (constraints m)\<rparr>)
      | Some cs \<Rightarrow> (cs, m))"

definition find_constraint :: "matching \<Rightarrow> string \<Rightarrow> element \<Rightarrow> constr list" where
  "find_constraint m axis elem = filter (\<lambda>c. fst c = elem) (gconstr m axis)"

definition remove_constraint :: "matching \<Rightarrow> string \<Rightarrow> element \<Rightarrow> matching" where
  "remove_constraint m axis elem =
     (case map_of (constraints m) axis of
        None \<Rightarrow> m
      | Some orig \<Rightarrow>
          let filtered = filter (\<lambda>c. e_name (fst c) \<noteq> e_name elem) orig;
              m1 = (if filtered \<noteq> []
                    then m\<lparr>constraints := AList.update axis filtered (constraints m)\<rparr>
                    else m\<lparr>constraints := AList.delete axis (constraints m)\<rparr>)
          in if length filtered < length orig
             then m1\<lparr>hook_log := hook_log m1 @ [Hook_remove_constraint]\<rparr>
             else m1)"

text \<open>
  \<^verbatim>\<open>self._sconstr(axis).append((elem, envelope))\<close> appends to the list object stored
  in the dictionary, so the entry of \<open>axis\<close> grows by one constraint.
\<close>

definition add_constraint :: "matching \<Rightarrow> string \<Rightarrow> element \<Rightarrow> real \<Rightarrow> matching" where
  "add_constraint m axis elem envelope =
     (let m1 = remove_constraint m axis elem;
          (cs, m2) = sconstr m1 axis;
          m3 = m2\<lparr>constraints := AList.update axis (cs @ [(elem, envelope)]) (constraints m2)\<rparr>
      in m3\<lparr>hook_log := hook_log m3 @ [Hook_add_constraint]\<rparr>)"

definition clear_constraints :: "matching \<Rightarrow> matching" where
  "clear_constraints m =
     (let m1 = m\<lparr>constraints := []\<rparr> in m1\<lparr>hook_log := hook_log m1 @ [Hook_clear_constraints]\<rparr>)"

definition stop :: "matching \<Rightarrow> matching" where
  "stop m = (let m1 = clear_constraints m in m1\<lparr>hook_log := hook_log m1 @ [Hook_stop]\<rparr>)"

section \<open>The optics table of a segment\<close>

text \<open>
  \<^verbatim>\<open>Segment.twiss\<close>. The engine is called first (\<^verbatim>\<open>raw_twiss\<close>); only then are
  the attributes assigned, one statement after the other, so that a \<^verbatim>\<open>KeyError\<close>
  of a later statement leaves the earlier assignments in place. Arithmetic on a column
  is elementwise; \<^verbatim>\<open>a ** 0.5\<close> is \<open>a powr (1/2)\<close>.
\<close>

definition raw_twiss :: "session \<Rightarrow> segment \<Rightarrow> (error + twiss_results) \<times> segment" where
  "raw_twiss ss sg =
     (let calls = madx_calls sg @ [Twiss_call]
      in (twiss_reply ss calls, sg\<lparr>madx_calls := calls\<rparr>))"

definition twiss :: "session \<Rightarrow> segment \<Rightarrow> (error + unit) \<times> segment" where
  "twiss ss sg =
     (case raw_twiss ss sg of
        (Inl e, sg0) \<Rightarrow> (Inl e, sg0)
      | (Inr results, sg0) \<Rightarrow>
     (let sg1 = sg0\<lparr>tw := dict_add_unit (columns results)\<rparr>;
          sg2 = sg1\<lparr>summary := dict_add_unit (res_summary results)\<rparr>
      in (case tw sg2 ''s'' of None \<Rightarrow> (Inl KeyError, sg2) | Some s \<Rightarrow>
     (let sg3 = sg2\<lparr>tw := (tw sg2)(''s'' \<mapsto> map (\<lambda>v. v + start_at sg2) s)\<rparr>
      in (case tw sg3 ''s'' of None \<Rightarrow> (Inl KeyError, sg3) | Some s' \<Rightarrow>
     (let sg4 = sg3\<lparr>pos := s'\<rparr>
      in (case tw sg4 ''betx'' of None \<Rightarrow> (Inl KeyError, sg4) | Some betx \<Rightarrow>
         (case summary sg4 ''ex'' of None \<Rightarrow> (Inl KeyError, sg4) | Some ex \<Rightarrow>
     (let sg5 = sg4\<lparr>tw := (tw sg4)(''envx'' \<mapsto> map (\<lambda>b. (b * ex) powr (1/2)) betx)\<rparr>
      in (case tw sg5 ''bety'' of None \<Rightarrow> (Inl KeyError, sg5) | Some bety \<Rightarrow>
         (case summary sg5 ''ey'' of None \<Rightarrow> (Inl KeyError, sg5) | Some ey \<Rightarrow>
     (let sg6 = sg5\<lparr>tw := (tw sg5)(''envy'' \<mapsto> map (\<lambda>b. (b * ey) powr (1/2)) bety)\<rparr>
      in (case tw sg6 ''x'' of None \<Rightarrow> (Inl KeyError, sg6) | Some xs \<Rightarrow>
     (let sg7 = sg6\<lparr>tw := (tw sg6)(''posx'' \<mapsto> xs)\<rparr>
      in (case tw sg7 ''y'' of None \<Rightarrow> (Inl KeyError, sg7) | Some ys \<Rightarrow>
     (let sg8 = sg7\<lparr>tw := (tw sg7)(''posy'' \<mapsto> ys)\<rparr>
      in (Inr (), sg8\<lparr>updates := Suc (updates sg8)\<rparr>)))))))))))))))))"

section \<open>The axis transform\<close>

text \<open>
  \<^verbatim>\<open>MatchTransform\<close> reads the two emittances from the segment's summary when it
  is constructed. Python's float division raises \<^verbatim>\<open>ZeroDivisionError\<close> on a zero
  divisor (a numpy scalar yields an infinity or a NaN instead); no real number results
  in either case, and the embedding has the error.
\<close>

record match_transform =
  tr_ex :: real
  tr_ey :: real

definition new_MatchTransform :: "segment \<Rightarrow> error + match_transform" where
  "new_MatchTransform sg =
     (case summary sg ''ex'' of None \<Rightarrow> Inl KeyError | Some ex \<Rightarrow>
     (case summary sg ''ey'' of None \<Rightarrow> Inl KeyError | Some ey \<Rightarrow>
        Inr \<lparr>tr_ex = ex, tr_ey = ey\<rparr>))"

definition trans_envx :: "match_transform \<Rightarrow> real \<Rightarrow> error + string \<times> real" where
  "trans_envx tr val =
     (if tr_ex tr = 0 then Inl ZeroDivisionError else Inr (''betx'', val * val / tr_ex tr))"

definition trans_envy :: "match_transform \<Rightarrow> real \<Rightarrow> error + string \<times> real" where
  "trans_envy tr val =
     (if tr_ey tr = 0 then Inl ZeroDivisionError else Inr (''bety'', val * val / tr_ey tr))"

definition trans_x :: "match_transform \<Rightarrow> real \<Rightarrow> error + string \<times> real" where
  "trans_x tr val = Inr (''x'', val)"

definition trans_posx :: "match_transform \<Rightarrow> real \<Rightarrow> error + string \<times> real" where
  "trans_posx = trans_x"

definition trans_y :: "match_transform \<Rightarrow> real \<Rightarrow> error + string \<times> real" where
  "trans_y tr val = Inr (''y'', val)"

definition trans_posy :: "match_transform \<Rightarrow> real \<Rightarrow> error + string \<times> real" where
  "trans_posy = trans_y"

text \<open>
  \<^verbatim>\<open>getattr(trans, axis)(value)\<close>: the six methods by name. Any other name has no
  transform method and the lookup, the call or the unpacking of its result raises.
\<close>

definition getattr_call :: "match_transform \<Rightarrow> string \<Rightarrow> real \<Rightarrow> error + string \<times> real" where
  "getattr_call tr axis val =
     (if axis = ''envx'' then trans_envx tr val
      else if axis = ''envy'' then trans_envy tr val
      else if axis = ''x'' then trans_x tr val
      else if axis = ''posx'' then trans_posx tr val
      else if axis = ''y'' then trans_y tr val
      else if axis = ''posy'' then trans_posy tr val
      else Inl AttributeError)"

section \<open>Matching\<close>

subsection \<open>Resolving a modifiable parameter\<close>

text \<open>
  \<^verbatim>\<open>_get_any_elem_param\<close>: the parameter names are tried in order, each read with
  \<^verbatim>\<open>elem[param]\<close>. A missing key is skipped (\<^verbatim>\<open>KeyError\<close>); a value with the
  attribute \<^verbatim>\<open>_expression\<close> is answered with that attribute; a value without it
  (\<^verbatim>\<open>AttributeError\<close>) is answered with the path \<^verbatim>\<open>name->param\<close> if, stripped of
  its unit, it differs from \<^verbatim>\<open>0.0\<close>, and skipped otherwise. A bare number differs
  from \<^verbatim>\<open>0.0\<close> when it is not zero; a string is left as it is by the unit tool and
  is never equal to a float. When the names are exhausted the function raises
  \<^verbatim>\<open>ValueError\<close>.
\<close>

fun get_any_elem_param :: "element \<Rightarrow> string list \<Rightarrow> error + string option" where
  "get_any_elem_param elem [] = Inl ValueError"
| "get_any_elem_param elem (param # params) =
     (case elem_getitem elem param of
        None \<Rightarrow> get_any_elem_param elem params
      | Some (Symbolic val expression) \<Rightarrow> Inr expression
      | Some (Plain val) \<Rightarrow>
          if val \<noteq> 0 then Inr (Some (e_name elem @ ''->'' @ param))
          else get_any_elem_param elem params
      | Some (Text str) \<Rightarrow> Inr (Some (e_name elem @ ''->'' @ param)))"

subsection \<open>The variable pools\<close>

text \<open>
  \<^verbatim>\<open>Matching._allvars\<close>: the cached pool of an axis, computed from the rule table
  and the element list and stored in the cache on first use.
\<close>

definition allvars :: "matching \<Rightarrow> string \<Rightarrow> knob list \<times> matching" where
  "allvars m axis =
     (case map_of (variable_parameters m) axis of
        Some vars \<Rightarrow> (vars, m)
      | None \<Rightarrow>
          let param_spec = (case map_of (rules m) axis of None \<Rightarrow> [] | Some spec \<Rightarrow> spec);
              vars = List.map_filter
                       (\<lambda>elem. case map_of param_spec (e_type elem) of
                                 None \<Rightarrow> None
                               | Some params \<Rightarrow> Some (elem, params))
                       (elements m)
          in (vars, m\<lparr>variable_parameters := AList.update axis vars (variable_parameters m)\<rparr>))"

text \<open>
  \<^verbatim>\<open>{axis: self._allvars(axis)[:] for axis in trans_constr}\<close>: one fresh copy of
  the pool per key, collected into a new dictionary \<open>av\<close>.
\<close>

fun copy_pools :: "string list \<Rightarrow> pools \<Rightarrow> matching \<Rightarrow> pools \<times> matching" where
  "copy_pools [] av m = (av, m)"
| "copy_pools (axis # rest) av m =
     (case allvars m axis of (vars, m1) \<Rightarrow> copy_pools rest (AList.update axis vars av) m1)"

subsection \<open>Transforming the constraints\<close>

text \<open>\<^verbatim>\<open>trans_constr.setdefault(trans_name, []).append((elem, trans_value))\<close>\<close>

definition setdefault_append :: "cdict \<Rightarrow> string \<Rightarrow> constr \<Rightarrow> cdict" where
  "setdefault_append d k c =
     (case map_of d k of
        None \<Rightarrow> AList.update k [c] d
      | Some this_constr \<Rightarrow> AList.update k (this_constr @ [c]) d)"

fun transform_constr :: "match_transform \<Rightarrow> string \<Rightarrow> constr list \<Rightarrow> cdict \<Rightarrow> error + cdict" where
  "transform_constr tr axis [] tc = Inr tc"
| "transform_constr tr axis ((elem, val) # constr) tc =
     (case getattr_call tr axis val of
        Inl e \<Rightarrow> Inl e
      | Inr (trans_name, trans_value) \<Rightarrow>
          transform_constr tr axis constr (setdefault_append tc trans_name (elem, trans_value)))"

fun transform_constraints :: "match_transform \<Rightarrow> cdict \<Rightarrow> cdict \<Rightarrow> error + cdict" where
  "transform_constraints tr [] tc = Inr tc"
| "transform_constraints tr ((axis, constr) # rest) tc =
     (case transform_constr tr axis constr tc of
        Inl e \<Rightarrow> Inl e
      | Inr tc' \<Rightarrow> transform_constraints tr rest tc')"

subsection \<open>Greedy knob assignment\<close>

text \<open>
  \<^verbatim>\<open>max(allowed, key=lambda v: v[0]['at'])\<close> keeps the first element whose key is
  not exceeded by a later one, and raises on an empty list.
\<close>

fun max_at :: "knob \<Rightarrow> knob list \<Rightarrow> knob" where
  "max_at best [] = best"
| "max_at best (v # vs) = max_at (if e_at (fst best) < e_at (fst v) then v else best) vs"

fun py_max :: "knob list \<Rightarrow> error + knob" where
  "py_max [] = Inl ValueError"
| "py_max (v # vs) = Inr (max_at v vs)"

text \<open>
  The body of the inner loop, for one constraint \<open>c\<close> of the group \<open>axis\<close>. The
  state is the dictionary of working pools and the vary-list. \<^verbatim>\<open>list.remove\<close>
  deletes the first equal item and raises \<^verbatim>\<open>ValueError\<close> if there is none; in
  the loop over all pools that error is caught and ignored, which is \<^const>\<open>remove1\<close>.
\<close>

definition assign_knob :: "string \<Rightarrow> constr \<Rightarrow> pools \<times> string list \<Rightarrow> error + pools \<times> string list" where
  "assign_knob axis c st =
     (case st of (av, vary) \<Rightarrow>
     (case map_of av axis of None \<Rightarrow> Inl KeyError | Some pool \<Rightarrow>
     (let allowed = filter (\<lambda>v. e_at (fst v) < e_at (fst c)) pool in
      if allowed = [] then Inr (av, vary)
      else
       (case py_max allowed of Inl e \<Rightarrow> Inl e | Inr v \<Rightarrow>
       (case get_any_elem_param (fst v) (snd v) of
          Inl e \<Rightarrow> Inl e
        | Inr None \<Rightarrow>
            if v \<in> set pool then Inr (AList.update axis (remove1 v pool) av, vary)
            else Inl ValueError
        | Inr (Some expr) \<Rightarrow>
            Inr (map (\<lambda>(a, pl). (a, remove1 v pl)) av, vary @ [expr]))))))"

fun assign_constr :: "string \<Rightarrow> constr list \<Rightarrow> pools \<times> string list \<Rightarrow> error + pools \<times> string list" where
  "assign_constr axis [] st = Inr st"
| "assign_constr axis (c # constr) st =
     (case assign_knob axis c st of Inl e \<Rightarrow> Inl e | Inr st' \<Rightarrow> assign_constr axis constr st')"

fun assign_all :: "cdict \<Rightarrow> pools \<times> string list \<Rightarrow> error + pools \<times> string list" where
  "assign_all [] st = Inr st"
| "assign_all ((axis, constr) # rest) st =
     (case assign_constr axis constr st of Inl e \<Rightarrow> Inl e | Inr st' \<Rightarrow> assign_all rest st')"

subsection \<open>The request to the solver\<close>

definition solver_constraints :: "cdict \<Rightarrow> (string \<times> string \<times> real) list" where
  "solver_constraints tc =
     concat (map (\<lambda>(name, constr).
                    map (\<lambda>(elem, val). (e_name elem, name, strip_unit name val)) constr) tc)"

text \<open>
  \<^verbatim>\<open>Matching.match\<close>. Nothing is caught: the first error ends the call, with the
  matcher as it is at that point. The sequence name and the initial conditions that
  accompany the match command are constant during the call and left out of the record
  of the call.
\<close>

definition match :: "session \<Rightarrow> (cdict \<Rightarrow> cdict) \<Rightarrow> matching \<Rightarrow> (error + unit) \<times> matching" where
  "match ss items m =
     (case new_MatchTransform (segment m) of Inl e \<Rightarrow> (Inl e, m) | Inr tr \<Rightarrow>
     (case transform_constraints tr (items (constraints m)) [] of
        Inl e \<Rightarrow> (Inl e, m)
      | Inr trans_constr \<Rightarrow>
     (case copy_pools (map fst (items trans_constr)) [] m of (av, m1) \<Rightarrow>
     (case assign_all (items trans_constr) (av, []) of
        Inl e \<Rightarrow> (Inl e, m1)
      | Inr (av', vary) \<Rightarrow>
     (let calls = madx_calls (segment m1)
                    @ [Match_call vary (solver_constraints (items trans_constr))];
          m2 = m1\<lparr>segment := (segment m1)\<lparr>madx_calls := calls\<rparr>\<rparr>
      in (case match_reply ss calls of
            Some e \<Rightarrow> (Inl e, m2)
          | None \<Rightarrow>
             (case twiss ss (segment m2) of (r, sg) \<Rightarrow> (r, m2\<lparr>segment := sg\<rparr>))))))))"

section \<open>Constraints in processing order\<close>

text \<open>
  Two auxiliary notions for stating properties of the nested loops: the constraints of a
  dictionary flattened in the order the loops visit them, and the loop body run over
  such a flat list.
\<close>

definition entries :: "cdict \<Rightarrow> (string \<times> constr) list" where
  "entries tc = concat (map (\<lambda>(axis, constr). map (Pair axis) constr) tc)"

fun assign_entries :: "(string \<times> constr) list \<Rightarrow> pools \<times> string list \<Rightarrow> error + pools \<times> string list" where
  "assign_entries [] st = Inr st"
| "assign_entries ((axis, c) # es) st =
     (case assign_knob axis c st of Inl e \<Rightarrow> Inl e | Inr st' \<Rightarrow> assign_entries es st')"

section \<open>Example data\<close>

text \<open>
  A small beamline for the concrete instances below: quadrupoles with one parameter
  \<^verbatim>\<open>k1\<close>, drifts without parameters, a segment starting at position 100 whose
  summary holds unit emittances, an engine that accepts every command and answers a
  twiss command with a table of two rows and a horizontal emittance of 4, and an
  engine that fails every twiss command.
\<close>

definition quadrupole :: "string \<Rightarrow> real \<Rightarrow> real \<Rightarrow> element" where
  "quadrupole n a k =
     \<lparr>e_name = n, e_type = ''quadrupole'', e_at = a, e_l = 1, e_params = [(''k1'', Plain k)]\<rparr>"

definition drift :: "string \<Rightarrow> real \<Rightarrow> element" where
  "drift n a = \<lparr>e_name = n, e_type = ''drift'', e_at = a, e_l = 1, e_params = []\<rparr>"

definition results_ex :: twiss_results where
  "results_ex =
     \<lparr>columns = [''s'' \<mapsto> [0, 5], ''x'' \<mapsto> [1, 2], ''y'' \<mapsto> [3, 4],
                 ''betx'' \<mapsto> [4, 9], ''bety'' \<mapsto> [16, 25]],
      res_summary = [''ex'' \<mapsto> 4, ''ey'' \<mapsto> 1]\<rparr>"

definition session_ex :: session where
  "session_ex = \<lparr>twiss_reply = (\<lambda>calls. Inr results_ex), match_reply = (\<lambda>calls. None)\<rparr>"

definition session_down :: session where
  "session_down = \<lparr>twiss_reply = (\<lambda>calls. Inl MadxError), match_reply = (\<lambda>calls. None)\<rparr>"

definition seg_ex :: segment where
  "seg_ex =
     \<lparr>start_at = 100, tw = [''s'' \<mapsto> [100]], summary = [''ex'' \<mapsto> 1, ''ey'' \<mapsto> 1],
      pos = [100], madx_calls = [], updates = 0\<rparr>"

definition rules_ex :: ruletab where
  "rules_ex = [(''betx'', [(''quadrupole'', [''k1''])]), (''bety'', [(''quadrupole'', [''k1''])])]"

definition rules_mixed :: ruletab where
  "rules_mixed =
     [(''betx'', [(''quadrupole'', [''k1''])]), (''bety'', [(''quadrupole'', [''k1'', ''k1s''])])]"

definition matcher_ex :: "element list \<Rightarrow> ruletab \<Rightarrow> cdict \<Rightarrow> matching" where
  "matcher_ex els rt cs =
     \<lparr>constraints = cs, variable_parameters = [], elements = els, rules = rt,
      segment = seg_ex, hook_log = []\<rparr>"

lemmas ex_defs = quadrupole_def drift_def results_ex_def session_ex_def session_down_def
  seg_ex_def rules_ex_def rules_mixed_def matcher_ex_def

lemmas eval_defs = new_MatchTransform_def getattr_call_def trans_envx_def trans_envy_def
  trans_x_def trans_y_def trans_posx_def trans_posy_def setdefault_append_def
  allvars_def assign_knob_def entries_def elem_getitem_def Let_def

section \<open>Properties of the constraint set\<close>

lemma gconstr_remove:
  "gconstr (remove_constraint m axis elem) axis =
     filter (\<lambda>c. e_name (fst c) \<noteq> e_name elem) (gconstr m axis)"
  by (auto simp: gconstr_def remove_constraint_def Let_def AList.update_conv' AList.delete_conv'
      split: option.splits)

lemma gconstr_add:
  "gconstr (add_constraint m axis elem v) axis =
     filter (\<lambda>c. e_name (fst c) \<noteq> e_name elem) (gconstr m axis) @ [(elem, v)]"
  using gconstr_remove[of m axis elem]
  by (auto simp: gconstr_def add_constraint_def sconstr_def Let_def AList.update_conv'
      split: option.splits prod.splits)

lemma filter_shorter_iff: "length (filter P xs) < length xs \<longleftrightarrow> (\<exists>x \<in> set xs. \<not> P x)"
proof
  assume "length (filter P xs) < length xs"
  then have "filter P xs \<noteq> xs" by auto
  then show "\<exists>x \<in> set xs. \<not> P x" by (simp add: filter_id_conv)
next
  assume "\<exists>x \<in> set xs. \<not> P x"
  then show "length (filter P xs) < length xs" by (auto intro: length_filter_less)
qed

lemma hook_log_remove:
  "hook_log (remove_constraint m axis elem) =
     hook_log m @ (if \<exists>c \<in> set (gconstr m axis). e_name (fst c) = e_name elem
                   then [Hook_remove_constraint] else [])"
proof (cases "map_of (constraints m) axis")
  case None
  then show ?thesis by (simp add: remove_constraint_def gconstr_def)
next
  case (Some orig)
  then show ?thesis
    by (simp add: remove_constraint_def gconstr_def Let_def filter_shorter_iff)
qed

lemma map_of_remove:
  "map_of (constraints (remove_constraint m axis elem)) axis =
     (if filter (\<lambda>c. e_name (fst c) \<noteq> e_name elem) (gconstr m axis) = [] then None
      else Some (filter (\<lambda>c. e_name (fst c) \<noteq> e_name elem) (gconstr m axis)))"
  by (auto simp: gconstr_def remove_constraint_def Let_def AList.update_conv' AList.delete_conv'
      split: option.splits)

lemma clear_constraints_empties:
  "gconstr (clear_constraints m) axis = [] \<and>
   hook_log (clear_constraints m) = hook_log m @ [Hook_clear_constraints]"
  by (simp add: clear_constraints_def gconstr_def)

lemma stop_clears:
  "constraints (stop m) = [] \<and>
   hook_log (stop m) = hook_log m @ [Hook_clear_constraints, Hook_stop]"
  by (simp add: stop_def clear_constraints_def)

lemma other_axis_remove:
  "a \<noteq> axis \<Longrightarrow>
     map_of (constraints (remove_constraint m axis elem)) a = map_of (constraints m) a"
  by (auto simp: remove_constraint_def Let_def AList.update_conv' AList.delete_conv'
      split: option.splits)

lemma other_axis_add:
  "a \<noteq> axis \<Longrightarrow>
     map_of (constraints (add_constraint m axis elem v)) a = map_of (constraints m) a"
  using other_axis_remove[of a axis m elem]
  by (auto simp: add_constraint_def sconstr_def Let_def AList.update_conv'
      split: option.splits prod.splits)

lemma hook_log_add:
  "hook_log (add_constraint m axis elem v) =
     hook_log (remove_constraint m axis elem) @ [Hook_add_constraint]"
  by (auto simp: add_constraint_def sconstr_def Let_def split: option.splits prod.splits)

text \<open>
  Claim C7. Adding a constraint removes the constraints of the axis whose element has
  the same name and appends the new pair behind the remaining ones, in their order;
  the lists of the other axes stay as they are and the \<open>add_constraint\<close> hook is fired
  after the removal. Hence, after adding twice for the same element on the same axis,
  the axis holds the constraints of the other elements followed by the pair with the
  second value, and \<open>find_constraint\<close> answers exactly that one pair: the second
  addition replaces the first, nothing is merged or accumulated.
\<close>

theorem add_twice_replaces:
  "gconstr (add_constraint m axis elem v1) axis =
     filter (\<lambda>c. e_name (fst c) \<noteq> e_name elem) (gconstr m axis) @ [(elem, v1)] \<and>
   gconstr (add_constraint (add_constraint m axis elem v1) axis elem v2) axis =
     filter (\<lambda>c. e_name (fst c) \<noteq> e_name elem) (gconstr m axis) @ [(elem, v2)] \<and>
   find_constraint (add_constraint (add_constraint m axis elem v1) axis elem v2) axis elem
     = [(elem, v2)] \<and>
   (a \<noteq> axis \<longrightarrow>
      map_of (constraints (add_constraint (add_constraint m axis elem v1) axis elem v2)) a =
        map_of (constraints m) a) \<and>
   hook_log (add_constraint m axis elem v1) =
     hook_log (remove_constraint m axis elem) @ [Hook_add_constraint]"
proof -
  let ?others = "filter (\<lambda>c. e_name (fst c) \<noteq> e_name elem) (gconstr m axis)"
  have 1: "gconstr (add_constraint m axis elem v1) axis = ?others @ [(elem, v1)]"
    by (rule gconstr_add)
  have 2: "gconstr (add_constraint (add_constraint m axis elem v1) axis elem v2) axis =
             ?others @ [(elem, v2)]"
    by (simp add: gconstr_add)
  have 3: "find_constraint (add_constraint (add_constraint m axis elem v1) axis elem v2) axis elem
             = [(elem, v2)]"
    by (auto simp add: find_constraint_def 2 filter_empty_conv)
  have 4: "a \<noteq> axis \<longrightarrow>
      map_of (constraints (add_constraint (add_constraint m axis elem v1) axis elem v2)) a =
        map_of (constraints m) a"
    by (simp add: other_axis_add)
  have 5: "hook_log (add_constraint m axis elem v1) =
             hook_log (remove_constraint m axis elem) @ [Hook_add_constraint]"
    by (rule hook_log_add)
  from 1 2 3 4 5 show ?thesis by blast
qed

theorem add_twice_replaces_witness:
  "gconstr (add_constraint (add_constraint
      (matcher_ex [] [] [(''envx'', [(drift ''d0'' 1, 7)]), (''envy'', [(drift ''d0'' 1, 8)])])
      ''envx'' (drift ''d1'' 5) 2) ''envx'' (drift ''d1'' 5) 3) ''envx''
     = [(drift ''d0'' 1, 7), (drift ''d1'' 5, 3)] \<and>
   find_constraint (add_constraint (add_constraint
      (matcher_ex [] [] [(''envx'', [(drift ''d0'' 1, 7)]), (''envy'', [(drift ''d0'' 1, 8)])])
      ''envx'' (drift ''d1'' 5) 2) ''envx'' (drift ''d1'' 5) 3) ''envx'' (drift ''d1'' 5)
     = [(drift ''d1'' 5, 3)] \<and>
   map_of (constraints (add_constraint (add_constraint
      (matcher_ex [] [] [(''envx'', [(drift ''d0'' 1, 7)]), (''envy'', [(drift ''d0'' 1, 8)])])
      ''envx'' (drift ''d1'' 5) 2) ''envx'' (drift ''d1'' 5) 3)) ''envy''
     = Some [(drift ''d0'' 1, 8)]"
  using add_twice_replaces[of
      "matcher_ex [] [] [(''envx'', [(drift ''d0'' 1, 7)]), (''envy'', [(drift ''d0'' 1, 8)])]"
      "''envx''" "drift ''d1'' 5" 2 3 "''envy''"]
  by (simp add: matcher_ex_def drift_def gconstr_def)

text \<open>
  Claim C8. Removing the constraint of an element right after adding it leaves no
  constraint for that element on the axis. If the axis held no constraint of another
  element, the key of the axis is gone from the dictionary; otherwise the key holds
  exactly the other constraints. The removal fires the \<open>remove_constraint\<close> hook.
  In general (for any matcher \<open>m'\<close>) the hook is fired exactly when the list of the axis
  got shorter, which is exactly when the axis held a constraint whose element has the
  same name; otherwise nothing is appended to the log.
\<close>

theorem remove_after_add:
  "find_constraint (remove_constraint (add_constraint m axis elem v) axis elem) axis elem = [] \<and>
   ((\<forall>c \<in> set (gconstr m axis). e_name (fst c) = e_name elem) \<longrightarrow>
      axis \<notin> fst ` set (constraints (remove_constraint (add_constraint m axis elem v) axis elem))) \<and>
   map_of (constraints (remove_constraint (add_constraint m axis elem v) axis elem)) axis =
     (if filter (\<lambda>c. e_name (fst c) \<noteq> e_name elem) (gconstr m axis) = [] then None
      else Some (filter (\<lambda>c. e_name (fst c) \<noteq> e_name elem) (gconstr m axis))) \<and>
   hook_log (remove_constraint (add_constraint m axis elem v) axis elem) =
     hook_log (add_constraint m axis elem v) @ [Hook_remove_constraint] \<and>
   hook_log (remove_constraint m' axis' elem') =
     hook_log m' @ (if length (gconstr (remove_constraint m' axis' elem') axis') < length (gconstr m' axis')
                    then [Hook_remove_constraint] else []) \<and>
   (length (gconstr (remove_constraint m' axis' elem') axis') < length (gconstr m' axis')
      \<longleftrightarrow> (\<exists>c \<in> set (gconstr m' axis'). e_name (fst c) = e_name elem'))"
proof -
  let ?m1 = "add_constraint m axis elem v"
  let ?others = "filter (\<lambda>c. e_name (fst c) \<noteq> e_name elem) (gconstr m axis)"
  have g1: "gconstr ?m1 axis = ?others @ [(elem, v)]" by (rule gconstr_add)
  have f1: "filter (\<lambda>c. e_name (fst c) \<noteq> e_name elem) (gconstr ?m1 axis) = ?others"
    by (simp add: g1)
  have a: "find_constraint (remove_constraint ?m1 axis elem) axis elem = []"
    by (auto simp: find_constraint_def gconstr_remove f1 filter_empty_conv)
  have c: "map_of (constraints (remove_constraint ?m1 axis elem)) axis =
             (if ?others = [] then None else Some ?others)"
    by (simp only: map_of_remove f1)
  have b: "(\<forall>c \<in> set (gconstr m axis). e_name (fst c) = e_name elem) \<longrightarrow>
             axis \<notin> fst ` set (constraints (remove_constraint ?m1 axis elem))"
  proof
    assume "\<forall>c \<in> set (gconstr m axis). e_name (fst c) = e_name elem"
    then have "?others = []" by (simp add: filter_empty_conv)
    with c have "map_of (constraints (remove_constraint ?m1 axis elem)) axis = None" by simp
    then show "axis \<notin> fst ` set (constraints (remove_constraint ?m1 axis elem))"
      by (simp add: map_of_eq_None_iff)
  qed
  have d: "hook_log (remove_constraint ?m1 axis elem) = hook_log ?m1 @ [Hook_remove_constraint]"
    by (simp add: hook_log_remove g1)
  have len: "length (gconstr (remove_constraint m' axis' elem') axis') < length (gconstr m' axis')
      \<longleftrightarrow> (\<exists>c \<in> set (gconstr m' axis'). e_name (fst c) = e_name elem')"
    by (simp add: gconstr_remove filter_shorter_iff)
  have e: "hook_log (remove_constraint m' axis' elem') =
     hook_log m' @ (if length (gconstr (remove_constraint m' axis' elem') axis') < length (gconstr m' axis')
                    then [Hook_remove_constraint] else [])"
    by (simp only: len hook_log_remove)
  from a b c d e len show ?thesis by blast
qed

theorem remove_after_add_witness:
  "find_constraint (remove_constraint (add_constraint (matcher_ex [] [] []) ''envx'' (drift ''d1'' 5) 2)
      ''envx'' (drift ''d1'' 5)) ''envx'' (drift ''d1'' 5) = [] \<and>
   ''envx'' \<notin> fst ` set (constraints
      (remove_constraint (add_constraint (matcher_ex [] [] []) ''envx'' (drift ''d1'' 5) 2)
         ''envx'' (drift ''d1'' 5))) \<and>
   hook_log (remove_constraint (add_constraint (matcher_ex [] [] []) ''envx'' (drift ''d1'' 5) 2)
      ''envx'' (drift ''d1'' 5)) = [Hook_add_constraint, Hook_remove_constraint]"
  using remove_after_add[of "matcher_ex [] [] []" "''envx''" "drift ''d1'' 5" 2
      "matcher_ex [] [] []" "''envx''" "drift ''d1'' 5"]
  by (simp add: matcher_ex_def gconstr_def add_constraint_def remove_constraint_def sconstr_def)

text \<open>
  Claim C10. Removing a constraint from an axis that is not a key of the constraints
  dictionary returns the matcher unchanged: the same dictionary, and nothing added to
  the log of fired hooks.
\<close>

theorem remove_absent_axis_noop:
  assumes "axis \<notin> fst ` set (constraints m)"
  shows "remove_constraint m axis elem = m \<and>
         constraints (remove_constraint m axis elem) = constraints m \<and>
         hook_log (remove_constraint m axis elem) = hook_log m"
proof -
  from assms have "map_of (constraints m) axis = None" by (simp add: map_of_eq_None_iff)
  then have "remove_constraint m axis elem = m" by (simp add: remove_constraint_def)
  then show ?thesis by simp
qed

theorem remove_absent_axis_noop_witness:
  "''envx'' \<notin> fst ` set (constraints (matcher_ex [] [] [(''envy'', [(drift ''d1'' 5, 2)])])) \<and>
   remove_constraint (matcher_ex [] [] [(''envy'', [(drift ''d1'' 5, 2)])]) ''envx'' (drift ''d1'' 5)
     = matcher_ex [] [] [(''envy'', [(drift ''d1'' 5, 2)])]"
proof -
  have h: "''envx'' \<notin> fst ` set (constraints (matcher_ex [] [] [(''envy'', [(drift ''d1'' 5, 2)])]))"
    by (simp add: matcher_ex_def)
  from remove_absent_axis_noop[OF h, of "drift ''d1'' 5"] h show ?thesis by simp
qed

section \<open>Properties of the optics table\<close>

lemma twiss_success:
  assumes "twiss ss sg = (Inr (), sg')"
  shows "\<exists>res s bx by xs ys ex ey.
           twiss_reply ss (madx_calls sg @ [Twiss_call]) = Inr res \<and>
           columns res ''s'' = Some s \<and> columns res ''betx'' = Some bx \<and>
           columns res ''bety'' = Some by \<and>
           columns res ''x'' = Some xs \<and> columns res ''y'' = Some ys \<and>
           res_summary res ''ex'' = Some ex \<and> res_summary res ''ey'' = Some ey \<and>
           sg' = sg\<lparr>madx_calls := madx_calls sg @ [Twiss_call],
                     tw := (columns res)(''s'' \<mapsto> map (\<lambda>v. v + start_at sg) s,
                              ''envx'' \<mapsto> map (\<lambda>b. (b * ex) powr (1/2)) bx,
                              ''envy'' \<mapsto> map (\<lambda>b. (b * ey) powr (1/2)) by,
                              ''posx'' \<mapsto> xs, ''posy'' \<mapsto> ys),
                     summary := res_summary res,
                     pos := map (\<lambda>v. v + start_at sg) s,
                     updates := Suc (updates sg)\<rparr>"
  using assms
  by (auto simp add: twiss_def raw_twiss_def Let_def dict_add_unit_def
      split: sum.splits option.splits prod.splits)

text \<open>
  Claim C5. After a \<open>twiss\<close> that returns normally, with \<open>res\<close> the engine's answer to
  this very call: the position column (and \<open>pos\<close>) is the engine's local position plus
  \<open>start_at\<close> at every index; the summary is the one of \<open>res\<close>, and with \<open>ex\<close>, \<open>ey\<close>
  read from it, the envelope columns are \<open>(betx * ex) ** 0.5\<close> and \<open>(bety * ey) ** 0.5\<close>
  at every index, which is the square root wherever the product is not negative (the
  power of a negative float is not a number); the columns \<open>posx\<close> and \<open>posy\<close> are the
  columns \<open>x\<close> and \<open>y\<close>.
\<close>

theorem twiss_table_invariant:
  assumes "twiss ss sg = (Inr (), sg')"
  shows "\<exists>res s_loc s betx bety envx envy xs ys ex ey.
           twiss_reply ss (madx_calls sg @ [Twiss_call]) = Inr res \<and>
           columns res ''s'' = Some s_loc \<and> tw sg' ''s'' = Some s \<and> pos sg' = s \<and>
           length s = length s_loc \<and>
           (\<forall>i < length s. s ! i = s_loc ! i + start_at sg) \<and>
           summary sg' = res_summary res \<and>
           summary sg' ''ex'' = Some ex \<and> summary sg' ''ey'' = Some ey \<and>
           tw sg' ''betx'' = Some betx \<and> tw sg' ''envx'' = Some envx \<and>
           length envx = length betx \<and>
           (\<forall>i < length betx. envx ! i = (betx ! i * ex) powr (1/2) \<and>
                (0 \<le> betx ! i * ex \<longrightarrow> envx ! i = sqrt (betx ! i * ex))) \<and>
           tw sg' ''bety'' = Some bety \<and> tw sg' ''envy'' = Some envy \<and>
           length envy = length bety \<and>
           (\<forall>i < length bety. envy ! i = (bety ! i * ey) powr (1/2) \<and>
                (0 \<le> bety ! i * ey \<longrightarrow> envy ! i = sqrt (bety ! i * ey))) \<and>
           tw sg' ''x'' = Some xs \<and> tw sg' ''posx'' = Some xs \<and>
           tw sg' ''y'' = Some ys \<and> tw sg' ''posy'' = Some ys"
proof -
  from twiss_success[OF assms] obtain res s bx "by" xs ys ex ey where
    r: "twiss_reply ss (madx_calls sg @ [Twiss_call]) = Inr res" and
    cs: "columns res ''s'' = Some s" and cbx: "columns res ''betx'' = Some bx" and
    cby: "columns res ''bety'' = Some by" and cx: "columns res ''x'' = Some xs" and
    cy: "columns res ''y'' = Some ys" and
    sx: "res_summary res ''ex'' = Some ex" and sy: "res_summary res ''ey'' = Some ey" and
    sg': "sg' = sg\<lparr>madx_calls := madx_calls sg @ [Twiss_call],
                     tw := (columns res)(''s'' \<mapsto> map (\<lambda>v. v + start_at sg) s,
                              ''envx'' \<mapsto> map (\<lambda>b. (b * ex) powr (1/2)) bx,
                              ''envy'' \<mapsto> map (\<lambda>b. (b * ey) powr (1/2)) by,
                              ''posx'' \<mapsto> xs, ''posy'' \<mapsto> ys),
                     summary := res_summary res,
                     pos := map (\<lambda>v. v + start_at sg) s,
                     updates := Suc (updates sg)\<rparr>"
    by blast
  let ?s = "map (\<lambda>v. v + start_at sg) s"
  let ?envx = "map (\<lambda>b. (b * ex) powr (1/2)) bx"
  let ?envy = "map (\<lambda>b. (b * ey) powr (1/2)) by"
  have 1: "tw sg' ''s'' = Some ?s" by (simp add: sg')
  have 2: "pos sg' = ?s" by (simp add: sg')
  have 3: "\<forall>i < length ?s. ?s ! i = s ! i + start_at sg" by simp
  have 4: "summary sg' = res_summary res" by (simp add: sg')
  have 5: "tw sg' ''betx'' = Some bx" by (simp add: sg' cbx)
  have 6: "tw sg' ''envx'' = Some ?envx" by (simp add: sg')
  have 7: "\<forall>i < length bx. ?envx ! i = (bx ! i * ex) powr (1/2) \<and>
                (0 \<le> bx ! i * ex \<longrightarrow> ?envx ! i = sqrt (bx ! i * ex))"
    by (simp add: powr_half_sqrt)
  have 8: "tw sg' ''bety'' = Some by" by (simp add: sg' cby)
  have 9: "tw sg' ''envy'' = Some ?envy" by (simp add: sg')
  have 10: "\<forall>i < length by. ?envy ! i = (by ! i * ey) powr (1/2) \<and>
                (0 \<le> by ! i * ey \<longrightarrow> ?envy ! i = sqrt (by ! i * ey))"
    by (simp add: powr_half_sqrt)
  have 11: "tw sg' ''x'' = Some xs" by (simp add: sg' cx)
  have 12: "tw sg' ''posx'' = Some xs" by (simp add: sg')
  have 13: "tw sg' ''y'' = Some ys" by (simp add: sg' cy)
  have 14: "tw sg' ''posy'' = Some ys" by (simp add: sg')
  have 15: "length ?s = length s" "length ?envx = length bx" "length ?envy = length by" by simp_all
  show ?thesis
    apply (rule exI[of _ res], rule exI[of _ s], rule exI[of _ ?s], rule exI[of _ bx], rule exI[of _ "by"])
    apply (rule exI[of _ ?envx], rule exI[of _ ?envy], rule exI[of _ xs], rule exI[of _ ys])
    apply (rule exI[of _ ex], rule exI[of _ ey])
    using r cs 1 2 3 4 5 6 7 8 9 10 11 12 13 14 15 sx sy by simp
qed

theorem twiss_table_invariant_witness:
  "\<exists>sg'. twiss session_ex seg_ex = (Inr (), sg') \<and>
         pos sg' ! 0 = 100 \<and> summary sg' ''ex'' = Some 4 \<and>
         (\<exists>envx. tw sg' ''envx'' = Some envx \<and> envx ! 0 = sqrt (4 * 4)) \<and>
         tw sg' ''posx'' = tw sg' ''x'' \<and> tw sg' ''posy'' = tw sg' ''y''"
proof -
  obtain sg' where h: "twiss session_ex seg_ex = (Inr (), sg')"
    by (simp add: twiss_def raw_twiss_def dict_add_unit_def session_ex_def results_ex_def seg_ex_def)
  from twiss_table_invariant[OF h] obtain res s_loc s betx envx xs ys ex where
    r: "twiss_reply session_ex (madx_calls seg_ex @ [Twiss_call]) = Inr res" and
    sl: "columns res ''s'' = Some s_loc" and p: "pos sg' = s" and len: "length s = length s_loc" and
    off: "\<forall>i < length s. s ! i = s_loc ! i + start_at seg_ex" and
    sm: "summary sg' = res_summary res" and ex: "summary sg' ''ex'' = Some ex" and
    bx: "tw sg' ''betx'' = Some betx" and ev: "tw sg' ''envx'' = Some envx" and
    env: "\<forall>i < length betx. envx ! i = (betx ! i * ex) powr (1/2) \<and>
                (0 \<le> betx ! i * ex \<longrightarrow> envx ! i = sqrt (betx ! i * ex))" and
    x: "tw sg' ''x'' = Some xs" "tw sg' ''posx'' = Some xs" and
    y: "tw sg' ''y'' = Some ys" "tw sg' ''posy'' = Some ys"
    by blast
  from r have res: "res = results_ex" by (simp add: session_ex_def)
  from sl have s_loc: "s_loc = [0, 5]" by (simp add: res results_ex_def)
  from off len have "pos sg' ! 0 = 100" by (simp add: p s_loc seg_ex_def)
  moreover from ex sm have "ex = 4" by (simp add: res results_ex_def)
  moreover have "betx = [4, 9]"
    using h bx
    by (auto simp add: twiss_def raw_twiss_def dict_add_unit_def session_ex_def results_ex_def seg_ex_def)
  ultimately show ?thesis using h ev env ex x y by auto
qed

text \<open>
  Claim C6. If the engine answers the twiss command with an error, \<open>twiss\<close> raises that
  error and the segment is as before but for the record of the call: table, summary,
  position column and the count of update notifications are the ones from before the
  call.
\<close>

theorem twiss_engine_failure_keeps_table:
  assumes "twiss_reply ss (madx_calls sg @ [Twiss_call]) = Inl e"
  shows "twiss ss sg = (Inl e, sg\<lparr>madx_calls := madx_calls sg @ [Twiss_call]\<rparr>) \<and>
         tw (snd (twiss ss sg)) = tw sg \<and> summary (snd (twiss ss sg)) = summary sg \<and>
         pos (snd (twiss ss sg)) = pos sg \<and> updates (snd (twiss ss sg)) = updates sg"
  using assms by (simp add: twiss_def raw_twiss_def)

theorem twiss_engine_failure_keeps_table_witness:
  "twiss session_down seg_ex = (Inl MadxError, seg_ex\<lparr>madx_calls := [Twiss_call]\<rparr>) \<and>
   tw (snd (twiss session_down seg_ex)) ''s'' = Some [100] \<and>
   summary (snd (twiss session_down seg_ex)) ''ex'' = Some 1 \<and>
   pos (snd (twiss session_down seg_ex)) = [100]"
  using twiss_engine_failure_keeps_table[of session_down seg_ex MadxError]
  by (simp add: session_down_def seg_ex_def)

section \<open>Properties of the greedy knob assignment\<close>

subsection \<open>The loops over the flattened constraints\<close>

lemma assign_entries_append:
  "assign_entries (xs @ ys) st =
     (case assign_entries xs st of Inl e \<Rightarrow> Inl e | Inr st' \<Rightarrow> assign_entries ys st')"
  by (induction xs arbitrary: st) (auto split: sum.splits)

lemma assign_constr_entries:
  "assign_constr axis cs st = assign_entries (map (Pair axis) cs) st"
  by (induction cs arbitrary: st) (auto split: sum.splits)

lemma entries_Nil: "entries [] = []"
  by (simp add: entries_def)

lemma entries_Cons: "entries ((k, cs) # d) = map (Pair k) cs @ entries d"
  by (simp add: entries_def)

lemma assign_all_entries: "assign_all tc st = assign_entries (entries tc) st"
proof (induction tc arbitrary: st)
  case Nil
  then show ?case by (simp add: entries_Nil)
next
  case (Cons p tc)
  obtain axis constr where p: "p = (axis, constr)" by (cases p)
  show ?case
    by (simp add: p entries_Cons assign_entries_append assign_constr_entries Cons.IH
        split: sum.splits)
qed

subsection \<open>The pool cache changes nothing else\<close>

lemma allvars_frame:
  "allvars m axis = (vars, m1) \<Longrightarrow> m1 = m\<lparr>variable_parameters := variable_parameters m1\<rparr>"
  by (auto simp: allvars_def Let_def split: option.splits)

lemma copy_pools_frame:
  "copy_pools axes av m = (av', m1) \<Longrightarrow> m1 = m\<lparr>variable_parameters := variable_parameters m1\<rparr>"
proof (induction axes arbitrary: av m)
  case Nil
  then show ?case by simp
next
  case (Cons axis axes)
  obtain vars m0 where a: "allvars m axis = (vars, m0)" by (cases "allvars m axis")
  with Cons.prems have c: "copy_pools axes (AList.update axis vars av) m0 = (av', m1)" by simp
  have 1: "m1 = m0\<lparr>variable_parameters := variable_parameters m1\<rparr>" using Cons.IH[OF c] .
  have 2: "m0 = m\<lparr>variable_parameters := variable_parameters m0\<rparr>" using allvars_frame[OF a] .
  show ?case by (subst 1, subst 2) simp
qed

subsection \<open>Parameter resolution and the choice of the candidate\<close>

lemma get_any_elem_param_fails:
  "get_any_elem_param elem params = Inl e \<longleftrightarrow>
     e = ValueError \<and>
     (\<forall>p \<in> set params. elem_getitem elem p = None
                         \<or> elem_getitem elem p = Some (Plain 0))"
  by (induction params) (auto split: option.splits pvalue.splits)

lemma max_at_mem: "max_at b vs \<in> set (b # vs)"
  by (induction vs arbitrary: b) auto

lemma max_at_ge_best: "e_at (fst b) \<le> e_at (fst (max_at b vs))"
proof (induction vs arbitrary: b)
  case Nil
  then show ?case by simp
next
  case (Cons v vs)
  show ?case
  proof (cases "e_at (fst b) < e_at (fst v)")
    case True
    then show ?thesis using Cons.IH[of v] by simp
  next
    case False
    then show ?thesis using Cons.IH[of b] by simp
  qed
qed

lemma max_at_ge: "u \<in> set (b # vs) \<Longrightarrow> e_at (fst u) \<le> e_at (fst (max_at b vs))"
proof (induction vs arbitrary: b)
  case Nil
  then show ?case by simp
next
  case (Cons v vs)
  let ?b' = "if e_at (fst b) < e_at (fst v) then v else b"
  have step: "max_at b (v # vs) = max_at ?b' vs" by simp
  have ge: "e_at (fst ?b') \<le> e_at (fst (max_at ?b' vs))" by (rule max_at_ge_best)
  from Cons.prems consider "u = b" | "u = v" | "u \<in> set vs" by auto
  then show ?case
  proof cases
    case 1
    then show ?thesis using ge by (auto simp: step split: if_splits)
  next
    case 2
    then show ?thesis using ge by (auto simp: step split: if_splits)
  next
    case 3
    then have "u \<in> set (?b' # vs)" by simp
    from Cons.IH[OF this] show ?thesis by (simp only: step)
  qed
qed

lemma py_max_Inr:
  assumes "py_max xs = Inr v"
  shows "v \<in> set xs \<and> (\<forall>u \<in> set xs. e_at (fst u) \<le> e_at (fst v))"
proof (cases xs)
  case Nil
  with assms show ?thesis by simp
next
  case (Cons b vs)
  with assms have v: "v = max_at b vs" by simp
  show ?thesis unfolding Cons v using max_at_mem[of b vs] max_at_ge[of _ b vs] by blast
qed

lemma py_max_nonempty: "xs \<noteq> [] \<Longrightarrow> \<exists>v. py_max xs = Inr v"
  by (cases xs) auto

subsection \<open>One step of the assignment\<close>

lemma assign_knob_success:
  assumes "assign_knob axis c (av, vary) = Inr (av', vary')" and "vary' \<noteq> vary"
  shows "\<exists>pool v expr.
           map_of av axis = Some pool \<and>
           py_max (filter (\<lambda>v. e_at (fst v) < e_at (fst c)) pool) = Inr v \<and>
           get_any_elem_param (fst v) (snd v) = Inr (Some expr) \<and>
           av' = map (\<lambda>(a, pl). (a, remove1 v pl)) av \<and> vary' = vary @ [expr]"
  using assms
  by (auto simp: assign_knob_def Let_def split: option.splits sum.splits if_splits)

lemma assign_knob_no_candidate:
  assumes "map_of av axis = Some pool" and "filter (\<lambda>v. e_at (fst v) < e_at (fst c)) pool = []"
  shows "assign_knob axis c (av, vary) = Inr (av, vary)"
  using assms by (simp add: assign_knob_def)

lemma assign_knob_ValueError:
  assumes "assign_knob axis c (av, vary) = Inl ValueError"
  shows "\<exists>pool v. map_of av axis = Some pool \<and> v \<in> set pool \<and> e_at (fst v) < e_at (fst c) \<and>
           py_max (filter (\<lambda>v. e_at (fst v) < e_at (fst c)) pool) = Inr v \<and>
           get_any_elem_param (fst v) (snd v) = Inl ValueError"
proof -
  from assms obtain pool where pool: "map_of av axis = Some pool"
    by (auto simp: assign_knob_def split: option.splits)
  let ?allowed = "filter (\<lambda>v. e_at (fst v) < e_at (fst c)) pool"
  from assms pool have ne: "?allowed \<noteq> []"
    by (auto simp: assign_knob_def Let_def)
  then obtain v where mx: "py_max ?allowed = Inr v" using py_max_nonempty by blast
  from py_max_Inr[OF mx] have mem: "v \<in> set pool" and up: "e_at (fst v) < e_at (fst c)" by auto
  from assms pool ne mx mem have "get_any_elem_param (fst v) (snd v) = Inl ValueError"
    by (auto simp: assign_knob_def Let_def split: sum.splits option.splits if_splits)
  with pool mem up mx show ?thesis by blast
qed

subsection \<open>Keys of the pool dictionary and the errors of the loop\<close>

lemma keys_update: "fst ` set (AList.update k v al) = insert k (fst ` set al)"
  by (induction al) auto

lemma keys_update_present: "map_of al k = Some x \<Longrightarrow> map fst (AList.update k v al) = map fst al"
  by (induction al) (auto split: if_splits)

lemma keys_remove_all: "map fst (map (\<lambda>(a, pl). (a, remove1 v pl)) av) = map fst av"
  by (induction av) auto

lemma py_max_Inl: "py_max xs = Inl e \<longleftrightarrow> xs = [] \<and> e = ValueError"
  by (cases xs) auto

lemma assign_knob_keys:
  assumes "assign_knob axis c (av, vary) = Inr (av', vary')"
  shows "map fst av' = map fst av"
proof -
  from assms obtain pool where pool: "map_of av axis = Some pool"
    by (auto simp: assign_knob_def split: option.splits)
  from assms pool consider "av' = av"
    | v where "av' = AList.update axis (remove1 v pool) av"
    | v where "av' = map (\<lambda>(a, pl). (a, remove1 v pl)) av"
    by (auto simp: assign_knob_def Let_def split: option.splits sum.splits if_splits)
  then show ?thesis
  proof cases
    case 1
    then show ?thesis by simp
  next
    case 2
    then show ?thesis by (simp add: keys_update_present[OF pool])
  next
    case 3
    then show ?thesis by (simp only: keys_remove_all)
  qed
qed

lemma assign_knob_error:
  assumes "assign_knob axis c (av, vary) = Inl e"
  shows "e = ValueError \<or> (e = KeyError \<and> axis \<notin> fst ` set av)"
proof (cases "map_of av axis")
  case None
  with assms show ?thesis by (simp add: assign_knob_def map_of_eq_None_iff)
next
  case (Some pool)
  with assms have "e = ValueError"
    by (auto simp: assign_knob_def Let_def py_max_Inl get_any_elem_param_fails
        split: option.splits sum.splits if_splits)
  then show ?thesis by simp
qed

lemma assign_entries_error:
  "assign_entries es (av, vary) = Inl e \<Longrightarrow> fst ` set es \<subseteq> fst ` set av \<Longrightarrow> e = ValueError"
proof (induction es arbitrary: av vary)
  case Nil
  then show ?case by simp
next
  case (Cons p es)
  obtain axis c where p: "p = (axis, c)" by (cases p)
  show ?case
  proof (cases "assign_knob axis c (av, vary)")
    case (Inl e')
    with Cons.prems p have "e' = e" by simp
    with assign_knob_error[OF Inl] Cons.prems(2) p show ?thesis by auto
  next
    case (Inr st)
    obtain av' vary' where st: "st = (av', vary')" by (cases st)
    from Inr st have k: "map fst av' = map fst av" by (auto dest: assign_knob_keys)
    then have "fst ` set av' = fst ` set av" by (metis set_map)
    with Cons.prems(2) have sub: "fst ` set es \<subseteq> fst ` set av'" by auto
    from Cons.prems(1) p Inr st have "assign_entries es (av', vary') = Inl e" by simp
    from Cons.IH[OF this sub] show ?thesis .
  qed
qed

lemma copy_pools_keys:
  "copy_pools axes av m = (av', m1) \<Longrightarrow> fst ` set av' = fst ` set av \<union> set axes"
proof (induction axes arbitrary: av m)
  case Nil
  then show ?case by simp
next
  case (Cons axis axes)
  obtain vars m0 where a: "allvars m axis = (vars, m0)" by (cases "allvars m axis")
  with Cons.prems have c: "copy_pools axes (AList.update axis vars av) m0 = (av', m1)" by simp
  have "fst ` set (AList.update axis vars av) = insert axis (fst ` set av)"
    by (rule keys_update)
  with Cons.IH[OF c] show ?case by auto
qed

lemma set_entries: "set (entries d) = {(k, c). \<exists>cs. (k, cs) \<in> set d \<and> c \<in> set cs}"
  by (induction d) (auto simp: entries_Nil entries_Cons)

lemma assign_all_error:
  assumes "copy_pools (map fst tci) [] m = (av, m1)" and "assign_all tci (av, []) = Inl e"
  shows "e = ValueError"
proof -
  from copy_pools_keys[OF assms(1)] have "fst ` set av = fst ` set tci" by simp
  moreover have "fst ` set (entries tci) \<subseteq> fst ` set tci"
    by (force simp: set_entries)
  ultimately have "fst ` set (entries tci) \<subseteq> fst ` set av" by simp
  with assms(2) show ?thesis by (auto simp: assign_all_entries dest: assign_entries_error)
qed

text \<open>
  Claim C3. Whenever the loop body adds a knob to the vary-list for a constraint \<open>c\<close>
  (whatever the state of the pools at that moment of the call), the knob is a
  parameter of a candidate \<open>v\<close> of the axis's working pool that lies strictly upstream
  of the constraint's element, and no candidate of that pool strictly upstream of the
  constraint lies further downstream than \<open>v\<close>.
\<close>

theorem knob_is_closest_upstream:
  assumes "assign_knob axis c (av, vary) = Inr (av', vary')" and "vary' \<noteq> vary"
  shows "\<exists>pool v expr.
           map_of av axis = Some pool \<and> v \<in> set pool \<and>
           e_at (fst v) < e_at (fst c) \<and>
           (\<forall>u \<in> set pool. e_at (fst u) < e_at (fst c) \<longrightarrow> e_at (fst u) \<le> e_at (fst v)) \<and>
           get_any_elem_param (fst v) (snd v) = Inr (Some expr) \<and>
           vary' = vary @ [expr]"
proof -
  from assign_knob_success[OF assms] obtain pool v expr where
    pool: "map_of av axis = Some pool" and
    mx: "py_max (filter (\<lambda>v. e_at (fst v) < e_at (fst c)) pool) = Inr v" and
    ex: "get_any_elem_param (fst v) (snd v) = Inr (Some expr)" and
    vary: "vary' = vary @ [expr]"
    by blast
  from py_max_Inr[OF mx] have
    mem: "v \<in> set (filter (\<lambda>v. e_at (fst v) < e_at (fst c)) pool)" and
    top: "\<forall>u \<in> set (filter (\<lambda>v. e_at (fst v) < e_at (fst c)) pool). e_at (fst u) \<le> e_at (fst v)"
    by blast+
  from mem have "v \<in> set pool" and "e_at (fst v) < e_at (fst c)" by simp_all
  moreover from top
  have "\<forall>u \<in> set pool. e_at (fst u) < e_at (fst c) \<longrightarrow> e_at (fst u) \<le> e_at (fst v)"
    by auto
  ultimately show ?thesis using pool ex vary by blast
qed

theorem knob_is_closest_upstream_witness:
  "assign_knob ''betx'' (drift ''d50'' 50, 2)
      ([(''betx'', [(quadrupole ''q10'' 10 1, [''k1'']), (quadrupole ''q25'' 25 1, [''k1'']),
                    (quadrupole ''q40'' 40 1, [''k1''])])], [])
     = Inr ([(''betx'', [(quadrupole ''q10'' 10 1, [''k1'']), (quadrupole ''q25'' 25 1, [''k1''])])],
            [''q40->k1'']) \<and>
   (\<exists>v \<in> {(quadrupole ''q10'' 10 1, [''k1'']), (quadrupole ''q25'' 25 1, [''k1'']),
            (quadrupole ''q40'' 40 1, [''k1''])}.
      e_at (fst v) = 40 \<and> get_any_elem_param (fst v) (snd v) = Inr (Some ''q40->k1''))"
proof -
  let ?pool = "[(quadrupole ''q10'' 10 1, [''k1'']), (quadrupole ''q25'' 25 1, [''k1'']),
                (quadrupole ''q40'' 40 1, [''k1''])]"
  have h: "assign_knob ''betx'' (drift ''d50'' 50, 2) ([(''betx'', ?pool)], [])
     = Inr ([(''betx'', [(quadrupole ''q10'' 10 1, [''k1'']), (quadrupole ''q25'' 25 1, [''k1''])])],
            [''q40->k1''])"
    by (simp add: assign_knob_def elem_getitem_def quadrupole_def drift_def)
  have ne: "[''q40->k1''] \<noteq> ([] :: string list)" by simp
  from knob_is_closest_upstream[OF h ne] obtain pool v expr where
    p: "map_of [(''betx'', ?pool)] ''betx'' = Some pool" and
    v: "v \<in> set pool" and
    top: "\<forall>u \<in> set pool. e_at (fst u) < e_at (fst (drift ''d50'' 50, 2::real))
            \<longrightarrow> e_at (fst u) \<le> e_at (fst v)" and
    g: "get_any_elem_param (fst v) (snd v) = Inr (Some expr)" and
    e: "[''q40->k1''] = [] @ [expr]"
    by blast
  from p have pool: "pool = ?pool" by simp
  from top have "40 \<le> e_at (fst v)" by (simp add: pool quadrupole_def drift_def)
  with v have "e_at (fst v) = 40" by (auto simp: pool quadrupole_def)
  with v g e h show ?thesis by (auto simp: pool)
qed

text \<open>
  Claim C4. A constraint whose axis pool holds no candidate strictly upstream leaves
  pools and vary-list as they are and raises nothing, and both loops go on with the
  constraints that follow. The loop body raises \<open>ValueError\<close> only when a candidate
  strictly upstream exists and no parameter of it can be resolved; and in \<open>match\<close>,
  where the pools are the copies made for the keys of the transformed constraints
  \<open>tci\<close>, the assignment loop raises no other error than that one.
\<close>

theorem no_candidate_is_skipped:
  "(map_of av axis = Some pool \<and> filter (\<lambda>v. e_at (fst v) < e_at (fst c)) pool = [] \<longrightarrow>
      assign_knob axis c (av, vary) = Inr (av, vary) \<and>
      assign_constr axis (c # constr) (av, vary) = assign_constr axis constr (av, vary) \<and>
      assign_entries ((axis, c) # es) (av, vary) = assign_entries es (av, vary)) \<and>
   (assign_knob axis c (av, vary) = Inl ValueError \<longrightarrow>
      (\<exists>pool v. map_of av axis = Some pool \<and> v \<in> set pool \<and> e_at (fst v) < e_at (fst c) \<and>
         get_any_elem_param (fst v) (snd v) = Inl ValueError)) \<and>
   (copy_pools (map fst tci) [] m = (av0, m1) \<and> assign_all tci (av0, []) = Inl e \<longrightarrow>
      e = ValueError)"
proof (intro conjI impI)
  assume a: "map_of av axis = Some pool \<and> filter (\<lambda>v. e_at (fst v) < e_at (fst c)) pool = []"
  then have k: "assign_knob axis c (av, vary) = Inr (av, vary)"
    by (simp add: assign_knob_no_candidate)
  show "assign_knob axis c (av, vary) = Inr (av, vary)" by (rule k)
  show "assign_constr axis (c # constr) (av, vary) = assign_constr axis constr (av, vary)"
    by (simp add: k)
  show "assign_entries ((axis, c) # es) (av, vary) = assign_entries es (av, vary)"
    by (simp add: k)
next
  assume "assign_knob axis c (av, vary) = Inl ValueError"
  from assign_knob_ValueError[OF this]
  show "\<exists>pool v. map_of av axis = Some pool \<and> v \<in> set pool \<and> e_at (fst v) < e_at (fst c) \<and>
         get_any_elem_param (fst v) (snd v) = Inl ValueError"
    by blast
next
  assume "copy_pools (map fst tci) [] m = (av0, m1) \<and> assign_all tci (av0, []) = Inl e"
  then show "e = ValueError" by (blast dest: assign_all_error)
qed

theorem no_candidate_is_skipped_witness:
  "assign_knob ''betx'' (drift ''d5'' 5, 2)
      ([(''betx'', [(quadrupole ''q5'' 5 1, [''k1'']), (quadrupole ''q10'' 10 1, [''k1''])])], [])
     = Inr ([(''betx'', [(quadrupole ''q5'' 5 1, [''k1'']), (quadrupole ''q10'' 10 1, [''k1''])])], []) \<and>
   assign_constr ''betx'' [(drift ''d5'' 5, 2), (drift ''d8'' 8, 2)]
      ([(''betx'', [(quadrupole ''q5'' 5 1, [''k1'']), (quadrupole ''q10'' 10 1, [''k1''])])], [])
     = Inr ([(''betx'', [(quadrupole ''q10'' 10 1, [''k1''])])], [''q5->k1'']) \<and>
   assign_knob ''betx'' (drift ''d5'' 5, 2) ([(''betx'', [(quadrupole ''q1'' 0 0, [''k1''])])], [])
     = Inl ValueError \<and>
   get_any_elem_param (quadrupole ''q1'' 0 0) [''k1''] = Inl ValueError \<and>
   assign_all [(''betx'', [(drift ''d5'' 5, 2)])]
      (fst (copy_pools [''betx''] []
              (matcher_ex [quadrupole ''q1'' 0 0, drift ''d5'' 5] rules_ex [])), [])
     = Inl ValueError"
  using
    no_candidate_is_skipped[of
      "[(''betx'', [(quadrupole ''q5'' 5 1, [''k1'']), (quadrupole ''q10'' 10 1, [''k1''])])]"
      "''betx''" "[(quadrupole ''q5'' 5 1, [''k1'']), (quadrupole ''q10'' 10 1, [''k1''])]"
      "(drift ''d5'' 5, 2)" "[]" "[(drift ''d8'' 8, 2)]" "[]"
      "[(''betx'', [(drift ''d5'' 5, 2)])]"
      "matcher_ex [quadrupole ''q1'' 0 0, drift ''d5'' 5] rules_ex []"
      "[(''betx'', [(quadrupole ''q1'' 0 0, [''k1''])])]"
      "(matcher_ex [quadrupole ''q1'' 0 0, drift ''d5'' 5] rules_ex [])
         \<lparr>variable_parameters := [(''betx'', [(quadrupole ''q1'' 0 0, [''k1''])])]\<rparr>"
      ValueError]
    no_candidate_is_skipped[of
      "[(''betx'', [(quadrupole ''q1'' 0 0, [''k1''])])]"
      "''betx''" "[(quadrupole ''q1'' 0 0, [''k1''])]"
      "(drift ''d5'' 5, 2)" "[]" "[]" "[]"
      "[(''betx'', [(drift ''d5'' 5, 2)])]"
      "matcher_ex [quadrupole ''q1'' 0 0, drift ''d5'' 5] rules_ex []"
      "[(''betx'', [(quadrupole ''q1'' 0 0, [''k1''])])]"
      "(matcher_ex [quadrupole ''q1'' 0 0, drift ''d5'' 5] rules_ex [])
         \<lparr>variable_parameters := [(''betx'', [(quadrupole ''q1'' 0 0, [''k1''])])]\<rparr>"
      ValueError]
  by (simp add: ex_defs eval_defs)

text \<open>
  A rule table may name one of the fixed keys: with the rule \<^verbatim>\<open>[l]\<close> a quadrupole
  of length 1 whose \<^verbatim>\<open>k1\<close> is zero still yields a knob, its length.
\<close>

lemma fixed_key_as_parameter:
  "get_any_elem_param (quadrupole ''q1'' 0 0) [''k1'', ''l''] = Inr (Some ''q1->l'') \<and>
   assign_knob ''betx'' (drift ''d1'' 5, 4) ([(''betx'', [(quadrupole ''q1'' 0 0, [''l''])])], [])
     = Inr ([(''betx'', [])], [''q1->l''])"
  by (simp add: assign_knob_def elem_getitem_def quadrupole_def drift_def)

text \<open>
  Claim C2. Let the transformed constraints, in the order the loops visit them, be
  \<open>pre @ (axis, c) # post\<close>, let the assignment for \<open>pre\<close> succeed, and let the
  element of the candidate \<open>v\<close> chosen for \<open>c\<close> hold, under each of the eligible
  names, either no value at all or a bare number that is zero (the fixed keys
  \<^verbatim>\<open>name\<close>, \<^verbatim>\<open>type\<close>, \<^verbatim>\<open>at\<close> and \<^verbatim>\<open>l\<close> included). Then \<open>match\<close> raises
  \<open>ValueError\<close>; the matcher it leaves differs from the one before the call in the
  pool cache at most: the constraints are the same, and so is the segment, hence no
  command has reached the engine and table and summary are not refreshed.
\<close>

theorem match_aborts_on_knob_failure:
  assumes tr: "new_MatchTransform (segment m) = Inr tr"
      and tc: "transform_constraints tr (items (constraints m)) [] = Inr tc"
      and cp: "copy_pools (map fst (items tc)) [] m = (av, m1)"
      and es: "entries (items tc) = pre @ (axis, c) # post"
      and pre: "assign_entries pre (av, []) = Inr (av1, vary1)"
      and pool: "map_of av1 axis = Some pool"
      and mx: "py_max (filter (\<lambda>v. e_at (fst v) < e_at (fst c)) pool) = Inr v"
      and np: "\<forall>p \<in> set (snd v). elem_getitem (fst v) p = None
                                \<or> elem_getitem (fst v) p = Some (Plain 0)"
  shows "match ss items m = (Inl ValueError, m1) \<and>
         constraints m1 = constraints m \<and> segment m1 = segment m \<and>
         hook_log m1 = hook_log m \<and> elements m1 = elements m \<and> rules m1 = rules m"
proof -
  from np have fail: "get_any_elem_param (fst v) (snd v) = Inl ValueError"
    by (simp add: get_any_elem_param_fails)
  from mx have ne: "filter (\<lambda>v. e_at (fst v) < e_at (fst c)) pool \<noteq> []" by auto
  have step: "assign_knob axis c (av1, vary1) = Inl ValueError"
    using pool ne mx fail by (simp add: assign_knob_def)
  have "assign_all (items tc) (av, []) = Inl ValueError"
    by (simp add: assign_all_entries es assign_entries_append pre step)
  then have r: "match ss items m = (Inl ValueError, m1)"
    by (simp add: match_def tr tc cp)
  from copy_pools_frame[OF cp] have f: "m1 = m\<lparr>variable_parameters := variable_parameters m1\<rparr>" .
  have "constraints m1 = constraints m" by (subst f) simp
  moreover have "segment m1 = segment m" by (subst f) simp
  moreover have "hook_log m1 = hook_log m" by (subst f) simp
  moreover have "elements m1 = elements m" by (subst f) simp
  moreover have "rules m1 = rules m" by (subst f) simp
  ultimately show ?thesis using r by simp
qed

theorem match_aborts_on_knob_failure_witness:
  "match session_ex (\<lambda>d. d)
      (matcher_ex [quadrupole ''q1'' 0 0, drift ''d1'' 5] rules_ex [(''envx'', [(drift ''d1'' 5, 2)])])
     = (Inl ValueError,
        (matcher_ex [quadrupole ''q1'' 0 0, drift ''d1'' 5] rules_ex [(''envx'', [(drift ''d1'' 5, 2)])])
          \<lparr>variable_parameters := [(''betx'', [(quadrupole ''q1'' 0 0, [''k1''])])]\<rparr>)"
  using match_aborts_on_knob_failure[of
      "matcher_ex [quadrupole ''q1'' 0 0, drift ''d1'' 5] rules_ex [(''envx'', [(drift ''d1'' 5, 2)])]"
      "\<lparr>tr_ex = 1, tr_ey = 1\<rparr>" "\<lambda>d. d" "[(''betx'', [(drift ''d1'' 5, 4)])]"
      "[(''betx'', [(quadrupole ''q1'' 0 0, [''k1''])])]"
      "(matcher_ex [quadrupole ''q1'' 0 0, drift ''d1'' 5] rules_ex [(''envx'', [(drift ''d1'' 5, 2)])])
          \<lparr>variable_parameters := [(''betx'', [(quadrupole ''q1'' 0 0, [''k1''])])]\<rparr>"
      "[]" "''betx''" "(drift ''d1'' 5, 4)" "[]"
      "[(''betx'', [(quadrupole ''q1'' 0 0, [''k1''])])]" "[]"
      "[(quadrupole ''q1'' 0 0, [''k1''])]" "(quadrupole ''q1'' 0 0, [''k1''])" session_ex]
  by (simp add: ex_defs eval_defs)

section \<open>Properties of the transform and of the request to the solver\<close>

lemma set_entries_update_Some:
  "map_of d k = Some old \<Longrightarrow>
     set (entries (AList.update k (old @ [c]) d)) = insert (k, c) (set (entries d))"
proof (induction d)
  case Nil
  then show ?case by simp
next
  case (Cons p d)
  obtain k' cs where p: "p = (k', cs)" by (cases p)
  show ?case
  proof (cases "k' = k")
    case True
    with Cons.prems p have "cs = old" by simp
    with True p show ?thesis by (auto simp: entries_Cons)
  next
    case False
    with Cons.prems p have "map_of d k = Some old" by simp
    from Cons.IH[OF this] False p show ?thesis by (auto simp: entries_Cons)
  qed
qed

lemma set_entries_update_None:
  "map_of d k = None \<Longrightarrow>
     set (entries (AList.update k [c] d)) = insert (k, c) (set (entries d))"
proof (induction d)
  case Nil
  then show ?case by (simp add: entries_Cons entries_Nil)
next
  case (Cons p d)
  obtain k' cs where p: "p = (k', cs)" by (cases p)
  from Cons.prems p have ne: "k' \<noteq> k" and "map_of d k = None" by (auto split: if_splits)
  from Cons.IH[OF this(2)] ne p show ?case by (auto simp: entries_Cons)
qed

lemma set_entries_setdefault_append:
  "set (entries (setdefault_append d k c)) = insert (k, c) (set (entries d))"
  by (simp add: setdefault_append_def set_entries_update_Some set_entries_update_None
      split: option.splits)

lemma transform_constr_entries:
  "transform_constr tr axis cs tc0 = Inr tc \<Longrightarrow>
     set (entries tc) = set (entries tc0) \<union>
       {(q, e, t). \<exists>val. (e, val) \<in> set cs \<and> getattr_call tr axis val = Inr (q, t)}"
proof (induction cs arbitrary: tc0)
  case Nil
  then show ?case by simp
next
  case (Cons c cs)
  obtain e val where c: "c = (e, val)" by (cases c)
  from Cons.prems c obtain q t where
    g: "getattr_call tr axis val = Inr (q, t)" and
    r: "transform_constr tr axis cs (setdefault_append tc0 q (e, t)) = Inr tc"
    by (auto split: sum.splits)
  from Cons.IH[OF r] have
    "set (entries tc) = insert (q, e, t) (set (entries tc0)) \<union>
       {(q, e, t). \<exists>val. (e, val) \<in> set cs \<and> getattr_call tr axis val = Inr (q, t)}"
    by (simp add: set_entries_setdefault_append)
  then show ?case using g c by auto
qed

lemma transform_constraints_entries:
  "transform_constraints tr d tc0 = Inr tc \<Longrightarrow>
     set (entries tc) = set (entries tc0) \<union>
       {(q, e, t). \<exists>axis val. (axis, e, val) \<in> set (entries d)
                     \<and> getattr_call tr axis val = Inr (q, t)}"
proof (induction d arbitrary: tc0)
  case Nil
  then show ?case by (simp add: entries_Nil)
next
  case (Cons p d)
  obtain axis cs where p: "p = (axis, cs)" by (cases p)
  from Cons.prems p obtain tc1 where
    a: "transform_constr tr axis cs tc0 = Inr tc1" and
    b: "transform_constraints tr d tc1 = Inr tc"
    by (auto split: sum.splits)
  show ?case
    unfolding Cons.IH[OF b] transform_constr_entries[OF a] p entries_Cons
    by auto
qed

lemma solver_constraints_entries:
  "solver_constraints tc = map (\<lambda>(q, e, t). (e_name e, q, strip_unit q t)) (entries tc)"
  by (induction tc) (auto simp: solver_constraints_def entries_def)

lemma twiss_calls: "madx_calls (snd (twiss ss sg)) = madx_calls sg @ [Twiss_call]"
  by (simp add: twiss_def raw_twiss_def Let_def split: sum.splits option.splits)


lemma match_calls:
  assumes tr: "new_MatchTransform (segment m) = Inr tr"
      and tc: "transform_constraints tr (items (constraints m)) [] = Inr tc"
  shows "\<exists>new. madx_calls (segment (snd (match ss items m))) = madx_calls (segment m) @ new \<and>
           (\<forall>vary cs. Match_call vary cs \<in> set new \<longrightarrow> cs = solver_constraints (items tc))"
proof -
  obtain av m1 where cp: "copy_pools (map fst (items tc)) [] m = (av, m1)"
    by (cases "copy_pools (map fst (items tc)) [] m")
  from copy_pools_frame[OF cp] have f: "m1 = m\<lparr>variable_parameters := variable_parameters m1\<rparr>" .
  have sg: "segment m1 = segment m" by (subst f) simp
  show ?thesis
  proof (cases "assign_all (items tc) (av, [])")
    case (Inl e)
    then have "match ss items m = (Inl e, m1)" by (simp add: match_def tr tc cp)
    then show ?thesis by (simp add: sg)
  next
    case (Inr st)
    obtain av' vary where st: "st = (av', vary)" by (cases st)
    let ?calls = "madx_calls (segment m) @ [Match_call vary (solver_constraints (items tc))]"
    let ?m2 = "m1\<lparr>segment := (segment m1)\<lparr>madx_calls := ?calls\<rparr>\<rparr>"
    show ?thesis
    proof (cases "match_reply ss ?calls")
      case (Some e)
      then have "match ss items m = (Inl e, ?m2)"
        by (simp add: match_def tr tc cp Inr st sg Let_def)
      then show ?thesis by simp
    next
      case None
      then have "snd (match ss items m) = ?m2\<lparr>segment := snd (twiss ss (segment ?m2))\<rparr>"
        by (simp add: match_def tr tc cp Inr st sg Let_def split: prod.splits)
      then have "madx_calls (segment (snd (match ss items m))) = ?calls @ [Twiss_call]"
        by (simp add: twiss_calls)
      then show ?thesis by simp
    qed
  qed
qed

text \<open>
  Claim C9. With \<open>ex\<close> and \<open>ey\<close> the emittances of the segment's summary, the
  transform of \<open>match\<close> maps \<open>envx\<close> to \<open>(betx, \<sigma> * \<sigma> / ex)\<close> and \<open>envy\<close> to
  \<open>(bety, \<sigma> * \<sigma> / ey)\<close> (for an emittance that is not zero, the quotient being
  undefined otherwise) and is the identity on the targets of \<open>x\<close>, \<open>posx\<close>, \<open>y\<close> and
  \<open>posy\<close>. Every constraint of a match command that the call sends to the engine
  carries the name of the element and the transformed quantity and target of one of
  the matcher's constraints: nothing else is computed from a target on its way to the
  solver.
\<close>

theorem axis_transform_only:
  assumes ex: "summary (segment m) ''ex'' = Some ex"
      and ey: "summary (segment m) ''ey'' = Some ey"
      and items: "\<forall>d. set (items d) = set d"
  shows "\<exists>tr. new_MatchTransform (segment m) = Inr tr \<and>
           (ex \<noteq> 0 \<longrightarrow> getattr_call tr ''envx'' \<sigma> = Inr (''betx'', \<sigma> * \<sigma> / ex)) \<and>
           (ey \<noteq> 0 \<longrightarrow> getattr_call tr ''envy'' \<sigma> = Inr (''bety'', \<sigma> * \<sigma> / ey)) \<and>
           getattr_call tr ''x'' t = Inr (''x'', t) \<and>
           getattr_call tr ''posx'' t = Inr (''x'', t) \<and>
           getattr_call tr ''y'' t = Inr (''y'', t) \<and>
           getattr_call tr ''posy'' t = Inr (''y'', t) \<and>
           (\<exists>new. madx_calls (segment (snd (match ss items m))) = madx_calls (segment m) @ new \<and>
              (\<forall>vary cs n q w. Match_call vary cs \<in> set new \<and> (n, q, w) \<in> set cs \<longrightarrow>
                 (\<exists>axis e val. (axis, e, val) \<in> set (entries (constraints m)) \<and>
                    n = e_name e \<and> getattr_call tr axis val = Inr (q, w))))"
proof -
  let ?tr = "\<lparr>tr_ex = ex, tr_ey = ey\<rparr>"
  have tr: "new_MatchTransform (segment m) = Inr ?tr"
    by (simp add: new_MatchTransform_def ex ey)
  have 1: "ex \<noteq> 0 \<longrightarrow> getattr_call ?tr ''envx'' \<sigma> = Inr (''betx'', \<sigma> * \<sigma> / ex)"
    by (simp add: getattr_call_def trans_envx_def)
  have 2: "ey \<noteq> 0 \<longrightarrow> getattr_call ?tr ''envy'' \<sigma> = Inr (''bety'', \<sigma> * \<sigma> / ey)"
    by (simp add: getattr_call_def trans_envy_def)
  have 3: "getattr_call ?tr ''x'' t = Inr (''x'', t)" "getattr_call ?tr ''posx'' t = Inr (''x'', t)"
    by (simp_all add: getattr_call_def trans_x_def trans_posx_def)
  have 4: "getattr_call ?tr ''y'' t = Inr (''y'', t)" "getattr_call ?tr ''posy'' t = Inr (''y'', t)"
    by (simp_all add: getattr_call_def trans_y_def trans_posy_def)
  have 5: "\<exists>new. madx_calls (segment (snd (match ss items m))) = madx_calls (segment m) @ new \<and>
              (\<forall>vary cs n q w. Match_call vary cs \<in> set new \<and> (n, q, w) \<in> set cs \<longrightarrow>
                 (\<exists>axis e val. (axis, e, val) \<in> set (entries (constraints m)) \<and>
                    n = e_name e \<and> getattr_call ?tr axis val = Inr (q, w)))"
  proof (cases "transform_constraints ?tr (items (constraints m)) []")
    case (Inl e)
    then have "match ss items m = (Inl e, m)" by (simp add: match_def tr)
    then show ?thesis by simp
  next
    case (Inr tc)
    from match_calls[of m ?tr items tc ss, OF tr Inr] obtain new where
      new: "madx_calls (segment (snd (match ss items m))) = madx_calls (segment m) @ new" and
      cs: "\<forall>vary cs. Match_call vary cs \<in> set new \<longrightarrow> cs = solver_constraints (items tc)"
      by blast
    have src: "set (entries (items d)) = set (entries d)" for d :: cdict
      using items by (simp add: set_entries)
    have "\<exists>axis e val. (axis, e, val) \<in> set (entries (constraints m)) \<and>
            n = e_name e \<and> getattr_call ?tr axis val = Inr (q, w)"
      if "(n, q, w) \<in> set (solver_constraints (items tc))" for n q w
    proof -
      from that obtain e where n: "n = e_name e" and mem: "(q, e, w) \<in> set (entries (items tc))"
        by (auto simp: solver_constraints_entries strip_unit_def)
      from mem have "(q, e, w) \<in> set (entries tc)" by (simp add: src)
      with transform_constraints_entries[OF Inr] obtain axis val where
        "(axis, e, val) \<in> set (entries (items (constraints m)))" and
        "getattr_call ?tr axis val = Inr (q, w)"
        by (auto simp: entries_Nil)
      then show ?thesis using n by (auto simp: src)
    qed
    with new cs show ?thesis by blast
  qed
  from tr 1 2 3 4 5 show ?thesis by blast
qed

theorem axis_transform_only_witness:
  "getattr_call \<lparr>tr_ex = 1, tr_ey = 1\<rparr> ''envx'' 2 = Inr (''betx'', 4) \<and>
   getattr_call \<lparr>tr_ex = 1, tr_ey = 1\<rparr> ''envy'' 2 = Inr (''bety'', 4) \<and>
   getattr_call \<lparr>tr_ex = 1, tr_ey = 1\<rparr> ''posx'' 3 = Inr (''x'', 3) \<and>
   getattr_call \<lparr>tr_ex = 1, tr_ey = 1\<rparr> ''posy'' 3 = Inr (''y'', 3) \<and>
   madx_calls (segment (snd (match session_ex (\<lambda>d. d)
      (matcher_ex [quadrupole ''q1'' 0 1, drift ''d1'' 5] rules_ex [(''envx'', [(drift ''d1'' 5, 2)])]))))
     = [Match_call [''q1->k1''] [(''d1'', ''betx'', 4)], Twiss_call]"
proof -
  let ?m = "matcher_ex [quadrupole ''q1'' 0 1, drift ''d1'' 5] rules_ex [(''envx'', [(drift ''d1'' 5, 2)])]"
  have ex: "summary (segment ?m) ''ex'' = Some 1" and ey: "summary (segment ?m) ''ey'' = Some 1"
    by (simp_all add: matcher_ex_def seg_ex_def)
  have items: "\<forall>d :: cdict. set ((\<lambda>d. d) d) = set d" by simp
  from axis_transform_only[OF ex ey items, of 2 3 session_ex] obtain tr where
    tr: "new_MatchTransform (segment ?m) = Inr tr" and
    1: "getattr_call tr ''envx'' 2 = Inr (''betx'', 2 * 2 / 1)"
       "getattr_call tr ''envy'' 2 = Inr (''bety'', 2 * 2 / 1)"
       "getattr_call tr ''posx'' 3 = Inr (''x'', 3)"
       "getattr_call tr ''posy'' 3 = Inr (''y'', 3)"
    by auto
  from tr have "tr = \<lparr>tr_ex = 1, tr_ey = 1\<rparr>"
    by (simp add: new_MatchTransform_def matcher_ex_def seg_ex_def)
  with 1 have a: "getattr_call \<lparr>tr_ex = 1, tr_ey = 1\<rparr> ''envx'' 2 = Inr (''betx'', 4)"
    "getattr_call \<lparr>tr_ex = 1, tr_ey = 1\<rparr> ''envy'' 2 = Inr (''bety'', 4)"
    "getattr_call \<lparr>tr_ex = 1, tr_ey = 1\<rparr> ''posx'' 3 = Inr (''x'', 3)"
    "getattr_call \<lparr>tr_ex = 1, tr_ey = 1\<rparr> ''posy'' 3 = Inr (''y'', 3)"
    by simp_all
  have b: "madx_calls (segment (snd (match session_ex (\<lambda>d. d) ?m)))
     = [Match_call [''q1->k1''] [(''d1'', ''betx'', 4)], Twiss_call]"
    by (simp add: match_def twiss_calls solver_constraints_def strip_unit_def ex_defs eval_defs
        case_prod_beta)
  from a b show ?thesis by simp
qed

text \<open>
  The scenario of the specification: quadrupoles at 0 and 10, a drift at 5, the rule
  \<^verbatim>\<open>quadrupole: [k1]\<close> for \<open>betx\<close>, and one envelope constraint of \<open>0.002\<close> at the
  drift. The match command varies the parameter of the first quadrupole only.
\<close>

lemma end_to_end_scenario:
  "madx_calls (segment (snd (match session_ex (\<lambda>d. d)
      (matcher_ex [quadrupole ''q1'' 0 1, drift ''d1'' 5, quadrupole ''q2'' 10 1]
         [(''betx'', [(''quadrupole'', [''k1''])])]
         [(''envx'', [(drift ''d1'' 5, 2 / 1000)])]))))
     = [Match_call [''q1->k1''] [(''d1'', ''betx'', 1 / 250000)], Twiss_call]"
  by (simp add: match_def twiss_calls solver_constraints_def strip_unit_def ex_defs eval_defs
      case_prod_beta)

section \<open>Uniqueness of the chosen candidates\<close>

text \<open>
  A candidate that supplies a knob is deleted from every working pool, provided no pool
  lists a candidate twice. The deletion compares whole candidates, that is the element
  together with the parameter names of the axis's rule table.
\<close>

lemma chosen_candidate_leaves_pools:
  assumes "assign_knob axis c (av, vary) = Inr (av', vary')" and "vary' \<noteq> vary"
      and "\<forall>p \<in> set av. distinct (snd p)"
  shows "\<exists>pool v. map_of av axis = Some pool \<and>
           py_max (filter (\<lambda>v. e_at (fst v) < e_at (fst c)) pool) = Inr v \<and>
           (\<forall>p \<in> set av'. v \<notin> set (snd p) \<and> distinct (snd p))"
proof -
  from assign_knob_success[OF assms(1,2)] obtain pool v where
    "map_of av axis = Some pool" and
    "py_max (filter (\<lambda>v. e_at (fst v) < e_at (fst c)) pool) = Inr v" and
    av': "av' = map (\<lambda>(a, pl). (a, remove1 v pl)) av"
    by blast
  moreover have "\<forall>p \<in> set av'. v \<notin> set (snd p) \<and> distinct (snd p)"
    using assms(3) by (auto simp: av')
  ultimately show ?thesis by blast
qed

text \<open>
  If, moreover, an element has the same parameter names in every pool that lists it,
  the chosen element itself is gone from every pool.
\<close>

lemma chosen_element_leaves_pools:
  assumes "assign_knob axis c (av, vary) = Inr (av', vary')" and "vary' \<noteq> vary"
      and dist: "\<forall>p \<in> set av. distinct (snd p)"
      and unif: "\<forall>p \<in> set av. \<forall>u \<in> set (snd p). \<forall>q \<in> set av. \<forall>w \<in> set (snd q).
                   fst u = fst w \<longrightarrow> snd u = snd w"
  shows "\<exists>pool v. map_of av axis = Some pool \<and>
           py_max (filter (\<lambda>v. e_at (fst v) < e_at (fst c)) pool) = Inr v \<and>
           (\<forall>p \<in> set av'. \<forall>u \<in> set (snd p). fst u \<noteq> fst v)"
proof -
  from assign_knob_success[OF assms(1,2)] obtain pool v where
    pool: "map_of av axis = Some pool" and
    mx: "py_max (filter (\<lambda>v. e_at (fst v) < e_at (fst c)) pool) = Inr v" and
    av': "av' = map (\<lambda>(a, pl). (a, remove1 v pl)) av"
    by blast
  from py_max_Inr[OF mx] have vp: "v \<in> set pool" by simp
  from pool have pin: "(axis, pool) \<in> set av" by (rule map_of_SomeD)
  have "fst u \<noteq> fst v" if p: "p \<in> set av'" and u: "u \<in> set (snd p)" for p u
  proof
    assume eq: "fst u = fst v"
    from p obtain a pl where q: "(a, pl) \<in> set av" and sp: "snd p = remove1 v pl"
      by (auto simp: av')
    from u sp have upl: "u \<in> set pl" using set_remove1_subset[of v pl] by auto
    from dist q have d: "distinct pl" by auto
    from unif q have "\<forall>u \<in> set pl. \<forall>q \<in> set av. \<forall>w \<in> set (snd q).
                   fst u = fst w \<longrightarrow> snd u = snd w"
      by (metis snd_conv)
    with upl have "\<forall>q \<in> set av. \<forall>w \<in> set (snd q). fst u = fst w \<longrightarrow> snd u = snd w"
      by blast
    with pin have "\<forall>w \<in> set pool. fst u = fst w \<longrightarrow> snd u = snd w"
      by (metis snd_conv)
    with vp eq have "snd u = snd v" by blast
    with eq have "u = v" by (rule prod_eqI)
    moreover from d have "v \<notin> set (remove1 v pl)" by simp
    ultimately show False using u sp by simp
  qed
  with pool mx show ?thesis by blast
qed

text \<open>
  With the rule table \<open>rules_ex\<close>, which lists the same parameter for a quadrupole on
  both axes, the quadrupole serves the first constraint only and the second one stays
  without a knob.
\<close>

lemma same_rules_choose_once:
  "madx_calls (segment (snd (match session_ex (\<lambda>d. d)
      (matcher_ex [quadrupole ''q1'' 0 1, drift ''d1'' 5] rules_ex
         [(''envx'', [(drift ''d1'' 5, 2)]), (''envy'', [(drift ''d1'' 5, 2)])]))))
     = [Match_call [''q1->k1''] [(''d1'', ''betx'', 4), (''d1'', ''bety'', 4)], Twiss_call]"
  by (simp add: match_def twiss_calls solver_constraints_def strip_unit_def ex_defs eval_defs
      case_prod_beta)

text \<open>
  Claim C1 states that one call never takes two knobs from the same element. The rule
  table \<open>rules_mixed\<close> lists the parameters \<^verbatim>\<open>[k1]\<close> for a quadrupole on
  \<open>betx\<close> and \<^verbatim>\<open>[k1, k1s]\<close> on \<open>bety\<close>. With an envelope constraint on each axis
  downstream of the single quadrupole \<open>q1\<close>, the candidate chosen for \<open>betx\<close> is not
  equal to the candidate of \<open>q1\<close> in the pool of \<open>bety\<close>, which therefore keeps it:
  the vary-list sent to the engine names the knob of \<open>q1\<close> twice.
\<close>

theorem element_chosen_twice:
  "madx_calls (segment (snd (match session_ex (\<lambda>d. d)
      (matcher_ex [quadrupole ''q1'' 0 1, drift ''d1'' 5] rules_mixed
         [(''envx'', [(drift ''d1'' 5, 2)]), (''envy'', [(drift ''d1'' 5, 2)])]))))
     = [Match_call [''q1->k1'', ''q1->k1''] [(''d1'', ''betx'', 4), (''d1'', ''bety'', 4)],
        Twiss_call]"
  by (simp add: match_def twiss_calls solver_constraints_def strip_unit_def ex_defs eval_defs
      case_prod_beta)

end
